theory Spec2Isabelle
  imports Complex_Main "HOL-Library.Word" "HOL-Library.Log_Nat"
begin

unbundle bit_operations_syntax

section \<open>Python values used by generate_personalens_icons.py\<close>

text \<open>
  The script is Python. Its integers are unbounded (\<open>int\<close>), a \<open>bytes\<close> or
  \<open>bytearray\<close> object is a list of 8-bit words, and every exception the script can raise
  is a value of \<open>error\<close>; a function that may raise returns \<open>error + 'a\<close>.
\<close>

type_synonym byte = "8 word"

datatype error = ValueError | IndexError | OverflowError | ZeroDivisionError | StructError

definition bind_err :: "error + 'a \<Rightarrow> ('a \<Rightarrow> error + 'b) \<Rightarrow> error + 'b" where
  "bind_err m f = (case m of Inl e \<Rightarrow> Inl e | Inr v \<Rightarrow> f v)"

text \<open>Python's normalisation of one bound of a slice over a sequence of length \<open>n\<close>.\<close>

definition slice_bound :: "int \<Rightarrow> nat \<Rightarrow> nat" where
  "slice_bound i n = (if i < 0 then nat (max 0 (i + int n)) else min (nat i) n)"

text \<open>\<open>xs[a:b]\<close>: never raises.\<close>

definition py_slice :: "'a list \<Rightarrow> int \<Rightarrow> int \<Rightarrow> 'a list" where
  "py_slice xs a b =
     (let lo = slice_bound a (length xs); hi = slice_bound b (length xs)
      in take (hi - lo) (drop lo xs))"

text \<open>\<open>xs[a:b] = ys\<close> on a bytearray: the slice is replaced by \<open>ys\<close>, whatever its length.\<close>

definition py_slice_assign :: "'a list \<Rightarrow> int \<Rightarrow> int \<Rightarrow> 'a list \<Rightarrow> 'a list" where
  "py_slice_assign xs a b ys =
     (let lo = slice_bound a (length xs); hi = max lo (slice_bound b (length xs))
      in take lo xs @ ys @ drop hi xs)"




text \<open>\<open>bytes(t)\<close> for a tuple of integers: ValueError unless each is in \<open>range(256)\<close>.\<close>

definition py_bytes :: "int list \<Rightarrow> error + byte list" where
  "py_bytes vs =
     (if \<forall>v \<in> set vs. 0 \<le> v \<and> v \<le> 255 then Inr (map word_of_int vs) else Inl ValueError)"

section \<open>Container encoder\<close>

text \<open>\<open>struct.pack('>I', n)\<close>: four bytes, most significant first; struct.error outside
  \<open>0 .. 2^32 - 1\<close>.\<close>

definition be32 :: "int \<Rightarrow> byte list" where
  "be32 n = [word_of_int (n div 16777216), word_of_int (n div 65536),
             word_of_int (n div 256), word_of_int n]"

definition pack_I :: "int \<Rightarrow> error + byte list" where
  "pack_I n = (if 0 \<le> n \<and> n < 4294967296 then Inr (be32 n) else Inl StructError)"

text \<open>\<open>struct.pack('>IIBBBBB', w, h, 8, 6, 0, 0, 0)\<close>.\<close>

definition pack_IHDR :: "int \<Rightarrow> int \<Rightarrow> error + byte list" where
  "pack_IHDR w h =
     bind_err (pack_I w) (\<lambda>bw. bind_err (pack_I h) (\<lambda>bh. Inr (bw @ bh @ [8, 6, 0, 0, 0])))"

text \<open>
  \<open>zlib.crc32\<close> and \<open>zlib.compress\<close> are library functions outside the repository:
  the encoder takes them as the parameters \<open>crc\<close> (bytes to a Python integer) and
  \<open>compress\<close> (bytes to bytes).
\<close>

definition chunk :: "(byte list \<Rightarrow> int) \<Rightarrow> byte list \<Rightarrow> byte list \<Rightarrow> error + byte list" where
  "chunk crc tag dat =
     bind_err (pack_I (int (length dat))) (\<lambda>len_bytes.
     bind_err (pack_I (crc (tag @ dat) AND 4294967295)) (\<lambda>crc_bytes.
       Inr (len_bytes @ tag @ dat @ crc_bytes)))"

text \<open>\<open>range(a, b)\<close>.\<close>

definition py_range :: "int \<Rightarrow> int \<Rightarrow> int list" where
  "py_range a b = [a .. b - 1]"

text \<open>The loop of \<open>save_png\<close>: one filter byte 0, then the row's slice of the buffer.\<close>

fun filter_rows :: "int list \<Rightarrow> int \<Rightarrow> byte list \<Rightarrow> byte list \<Rightarrow> byte list" where
  "filter_rows [] stride rgba raw = raw"
| "filter_rows (y # ys) stride rgba raw =
     filter_rows ys stride rgba (raw @ [0] @ py_slice rgba (y * stride) ((y + 1) * stride))"

definition png_signature :: "byte list" where
  "png_signature = [137, 80, 78, 71, 13, 10, 26, 10]"

definition tag_IHDR :: "byte list" where "tag_IHDR = [73, 72, 68, 82]"
definition tag_IDAT :: "byte list" where "tag_IDAT = [73, 68, 65, 84]"
definition tag_IEND :: "byte list" where "tag_IEND = [73, 69, 78, 68]"

text \<open>\<open>save_png\<close>; the result is the byte string handed to \<open>path.write_bytes\<close>.\<close>

definition save_png ::
  "(byte list \<Rightarrow> byte list) \<Rightarrow> (byte list \<Rightarrow> int) \<Rightarrow> int \<Rightarrow> int \<Rightarrow> byte list \<Rightarrow> error + byte list" where
  "save_png compress crc w h rgba =
     (let stride = w * 4;
          raw = filter_rows (py_range 0 h) stride rgba [];
          compressed = compress raw
      in bind_err (pack_IHDR w h) (\<lambda>hdr.
         bind_err (chunk crc tag_IHDR hdr) (\<lambda>c1.
         bind_err (chunk crc tag_IDAT compressed) (\<lambda>c2.
         bind_err (chunk crc tag_IEND []) (\<lambda>c3.
           Inr (png_signature @ c1 @ c2 @ c3))))))"


section \<open>Python floats\<close>

text \<open>
  A Python float is an IEEE 754 binary64 value: a finite number with a 53-bit significand
  and exponent between -1022 and 1023 (subnormals included), an infinity, or NaN. The model
  keeps a finite value as the rational it denotes; the two zeros are one value, which no
  operation of the script tells apart (division by either zero raises). Every arithmetic
  operation computes the exact result and rounds it to the nearest float, ties to even.
\<close>

datatype pyfloat = Fin rat | PInf | NInf | NaN

text \<open>The integer \<open>e\<close> with \<open>2^e \<le> x < 2^(e+1)\<close>, for positive \<open>x\<close>.\<close>

definition ilog2 :: "rat \<Rightarrow> int" where
  "ilog2 x = (if 1 \<le> x then bitlen \<lfloor>x\<rfloor> - 1 else - bitlen (\<lceil>1 / x\<rceil> - 1))"

text \<open>Rounding to the nearest integer, ties to even: Python's \<open>round\<close> on a float.\<close>

definition round_half_even :: "rat \<Rightarrow> int" where
  "round_half_even x =
     (let f = \<lfloor>x\<rfloor>; d = x - of_int f
      in if d < 1 / 2 then f else if 1 / 2 < d then f + 1 else if even f then f else f + 1)"

text \<open>The exponent of the unit in the last place of the floats around \<open>x\<close>.\<close>

definition ulp_exp :: "rat \<Rightarrow> int" where
  "ulp_exp x = max (ilog2 \<bar>x\<bar>) (- 1022) - 52"

definition rnd :: "rat \<Rightarrow> rat" where
  "rnd x = (if x = 0 then 0
            else of_int (round_half_even (x / 2 powi ulp_exp x)) * 2 powi ulp_exp x)"

text \<open>The float an exact result is rounded to; beyond the largest float it is an infinity.\<close>

definition fl :: "rat \<Rightarrow> pyfloat" where
  "fl x = (let y = rnd x
           in if 2 ^ 1024 \<le> y then PInf else if y \<le> - (2 ^ 1024) then NInf else Fin y)"

text \<open>The values of \<open>pyfloat\<close> that are floats: a finite one is its own rounding.\<close>

definition is_float :: "pyfloat \<Rightarrow> bool" where
  "is_float v = (case v of Fin q \<Rightarrow> fl q = Fin q | _ \<Rightarrow> True)"

definition is_fin :: "pyfloat \<Rightarrow> bool" where
  "is_fin v = (case v of Fin q \<Rightarrow> True | _ \<Rightarrow> False)"

fun fneg :: "pyfloat \<Rightarrow> pyfloat" where
  "fneg (Fin a) = Fin (- a)"
| "fneg PInf = NInf"
| "fneg NInf = PInf"
| "fneg NaN = NaN"


fun fadd :: "pyfloat \<Rightarrow> pyfloat \<Rightarrow> pyfloat" where
  "fadd (Fin a) (Fin b) = fl (a + b)"
| "fadd NaN v = NaN"
| "fadd v NaN = NaN"
| "fadd PInf NInf = NaN"
| "fadd NInf PInf = NaN"
| "fadd PInf v = PInf"
| "fadd v PInf = PInf"
| "fadd NInf v = NInf"
| "fadd v NInf = NInf"

definition fsub :: "pyfloat \<Rightarrow> pyfloat \<Rightarrow> pyfloat" where
  "fsub a b = fadd a (fneg b)"

text \<open>The sign rule for a product or quotient in which an infinity takes part.\<close>

definition signed_inf :: "bool \<Rightarrow> pyfloat" where
  "signed_inf positive = (if positive then PInf else NInf)"

fun fmul :: "pyfloat \<Rightarrow> pyfloat \<Rightarrow> pyfloat" where
  "fmul (Fin a) (Fin b) = fl (a * b)"
| "fmul NaN v = NaN"
| "fmul v NaN = NaN"
| "fmul PInf (Fin b) = (if b = 0 then NaN else signed_inf (0 < b))"
| "fmul NInf (Fin b) = (if b = 0 then NaN else signed_inf (b < 0))"
| "fmul (Fin a) PInf = (if a = 0 then NaN else signed_inf (0 < a))"
| "fmul (Fin a) NInf = (if a = 0 then NaN else signed_inf (a < 0))"
| "fmul PInf PInf = PInf"
| "fmul NInf NInf = PInf"
| "fmul PInf NInf = NInf"
| "fmul NInf PInf = NInf"

text \<open>The quotient by a divisor that is not zero.\<close>

fun fquot :: "pyfloat \<Rightarrow> pyfloat \<Rightarrow> pyfloat" where
  "fquot (Fin a) (Fin b) = fl (a / b)"
| "fquot NaN v = NaN"
| "fquot v NaN = NaN"
| "fquot PInf (Fin b) = signed_inf (0 < b)"
| "fquot NInf (Fin b) = signed_inf (b < 0)"
| "fquot (Fin a) PInf = Fin 0"
| "fquot (Fin a) NInf = Fin 0"
| "fquot PInf PInf = NaN"
| "fquot NInf NInf = NaN"
| "fquot PInf NInf = NaN"
| "fquot NInf PInf = NaN"

text \<open>\<open>a / b\<close> on floats: ZeroDivisionError when the divisor is zero.\<close>

definition fdiv :: "pyfloat \<Rightarrow> pyfloat \<Rightarrow> error + pyfloat" where
  "fdiv a b = (if b = Fin 0 then Inl ZeroDivisionError else Inr (fquot a b))"

text \<open>Comparisons: every comparison with NaN is false.\<close>

fun fle :: "pyfloat \<Rightarrow> pyfloat \<Rightarrow> bool" where
  "fle (Fin a) (Fin b) = (a \<le> b)"
| "fle NaN v = False"
| "fle v NaN = False"
| "fle NInf v = True"
| "fle v PInf = True"
| "fle v w = False"

fun flt :: "pyfloat \<Rightarrow> pyfloat \<Rightarrow> bool" where
  "flt (Fin a) (Fin b) = (a < b)"
| "flt NaN v = False"
| "flt v NaN = False"
| "flt PInf v = False"
| "flt v NInf = False"
| "flt v w = True"

text \<open>\<open>max(a, b)\<close> keeps \<open>a\<close> unless \<open>b > a\<close>; \<open>min(a, b)\<close> keeps \<open>a\<close> unless
  \<open>b < a\<close>.\<close>

definition fmax :: "pyfloat \<Rightarrow> pyfloat \<Rightarrow> pyfloat" where
  "fmax a b = (if flt a b then b else a)"

definition fmin :: "pyfloat \<Rightarrow> pyfloat \<Rightarrow> pyfloat" where
  "fmin a b = (if flt b a then b else a)"

text \<open>An integer operand of a float operation is converted first; OverflowError when it
  is too large for a float.\<close>

definition to_float :: "int \<Rightarrow> error + pyfloat" where
  "to_float n = (case fl (of_int n) of Fin q \<Rightarrow> Inr (Fin q) | _ \<Rightarrow> Inl OverflowError)"

text \<open>\<open>a / b\<close> on two integers: the exact quotient, rounded once.\<close>

definition int_truediv :: "int \<Rightarrow> int \<Rightarrow> error + pyfloat" where
  "int_truediv a b =
     (if b = 0 then Inl ZeroDivisionError
      else case fl (of_int a / of_int b) of Fin q \<Rightarrow> Inr (Fin q) | _ \<Rightarrow> Inl OverflowError)"


fun py_round :: "pyfloat \<Rightarrow> error + int" where
  "py_round (Fin q) = Inr (round_half_even q)"
| "py_round NaN = Inl ValueError"
| "py_round v = Inl OverflowError"

text \<open>A \<open>for\<close> loop over a list of values, the state threaded through the body; an
  exception in the body ends the loop.\<close>

fun for_each :: "'i list \<Rightarrow> ('i \<Rightarrow> 's \<Rightarrow> error + 's) \<Rightarrow> 's \<Rightarrow> error + 's" where
  "for_each [] body s = Inr s"
| "for_each (i # rest) body s =
     (case body i s of Inl e \<Rightarrow> Inl e | Inr s' \<Rightarrow> for_each rest body s')"

section \<open>Canvas and compositor\<close>

type_synonym color = "int \<times> int \<times> int \<times> int"





text \<open>The inner function \<open>comp\<close> of \<open>blend\<close>, with the values it closes over:
  the quotient before rounding, and \<open>int(round(...))\<close> of it.\<close>

definition comp_quot :: "pyfloat \<Rightarrow> pyfloat \<Rightarrow> pyfloat \<Rightarrow> int \<Rightarrow> int \<Rightarrow> error + pyfloat" where
  "comp_quot sa_f da_f out_a sc dc =
     bind_err (to_float sc) (\<lambda>sc_f.
     bind_err (to_float dc) (\<lambda>dc_f.
       fdiv (fadd (fmul sc_f sa_f) (fmul (fmul dc_f da_f) (fsub (Fin 1) sa_f))) out_a))"

definition comp :: "pyfloat \<Rightarrow> pyfloat \<Rightarrow> pyfloat \<Rightarrow> int \<Rightarrow> int \<Rightarrow> error + int" where
  "comp sa_f da_f out_a sc dc = bind_err (comp_quot sa_f da_f out_a sc dc) py_round"


definition lerp :: "int \<Rightarrow> int \<Rightarrow> pyfloat \<Rightarrow> error + pyfloat" where
  "lerp a b t =
     bind_err (to_float (b - a)) (\<lambda>d.
     bind_err (to_float a) (\<lambda>a_f. Inr (fadd a_f (fmul d t))))"

definition mix1 :: "int \<Rightarrow> int \<Rightarrow> pyfloat \<Rightarrow> error + int" where
  "mix1 a b t = bind_err (lerp a b t) py_round"

definition mix :: "color \<Rightarrow> color \<Rightarrow> pyfloat \<Rightarrow> error + int list" where
  "mix c1 c2 t =
     (case c1 of (r1, g1, b1, a1) \<Rightarrow> case c2 of (r2, g2, b2, a2) \<Rightarrow>
        bind_err (mix1 r1 r2 t) (\<lambda>r.
        bind_err (mix1 g1 g2 t) (\<lambda>g.
        bind_err (mix1 b1 b2 t) (\<lambda>b.
        bind_err (mix1 a1 a2 t) (\<lambda>a. Inr [r, g, b, a])))))"

section \<open>Gradient fill\<close>

definition gradient_t :: "pyfloat \<Rightarrow> pyfloat \<Rightarrow> pyfloat" where
  "gradient_t tx ty =
     fmax (Fin 0) (fmin (Fin 1)
       (fquot (fadd (fmul tx (fl (6 / 10))) (fmul ty (fl (9 / 10)))) (Fin (3 / 2))))"

definition fill_linear_gradient ::
  "byte list \<Rightarrow> int \<Rightarrow> int \<Rightarrow> color \<Rightarrow> color \<Rightarrow> error + byte list" where
  "fill_linear_gradient px w h c_tl c_br =
     for_each (py_range 0 h)
       (\<lambda>y px. bind_err (int_truediv y (max 1 (h - 1))) (\<lambda>ty.
          for_each (py_range 0 w)
            (\<lambda>x px. bind_err (int_truediv x (max 1 (w - 1))) (\<lambda>tx.
               bind_err (mix c_tl c_br (gradient_t tx ty)) (\<lambda>c.
               bind_err (py_bytes c) (\<lambda>bs.
                 let i = (y * w + x) * 4 in Inr (py_slice_assign px i (i + 4) bs)))))
            px))
       px"

section \<open>Shape rasterizers\<close>

text \<open>
  \<open>math.hypot\<close> is a library function; the rasterizers take it as the parameter
  \<open>hypot\<close>. The geometry arguments are floats, the canvas dimensions and the colour
  components are integers. Each rasterizer first computes its clipped bounding box.
\<close>

text \<open>The clamp \<open>max(0.0, min(1.0, v))\<close> that every fade passes through.\<close>

definition clamp01 :: "pyfloat \<Rightarrow> pyfloat" where
  "clamp01 v = fmax (Fin 0) (fmin (Fin 1) v)"



text \<open>The coverage \<open>a\<close> of \<open>draw_soft_circle\<close> at distance \<open>d\<close>.\<close>

definition soft_circle_alpha :: "pyfloat \<Rightarrow> pyfloat \<Rightarrow> pyfloat \<Rightarrow> error + pyfloat" where
  "soft_circle_alpha d r feather =
     (if fle d (fsub r feather) then Inr (Fin 1)
      else if fle d (fadd r feather) then
        bind_err (fdiv (fsub (fadd r feather) d) (fmul (Fin 2) feather)) (\<lambda>q. Inr (clamp01 q))
      else Inr (Fin 0))"










section \<open>Reading a header back\<close>

text \<open>
  The script only writes files. To state that the header reports the canvas dimensions,
  \<open>read_header\<close> follows the container layout of the specification: the 8-byte
  signature, then a chunk of 4-byte big-endian length, 4-byte tag and payload, whose first
  eight payload bytes are the big-endian width and height.
\<close>

definition from_be :: "byte list \<Rightarrow> int" where
  "from_be bs = foldl (\<lambda>acc b. acc * 256 + uint b) 0 bs"

definition read_header :: "byte list \<Rightarrow> (int \<times> int) option" where
  "read_header png =
     (if take 8 png = png_signature \<and> take 4 (drop 12 png) = tag_IHDR
         \<and> from_be (take 4 (drop 8 png)) = 13 \<and> 33 \<le> length png
      then Some (from_be (take 4 (drop 16 png)), from_be (take 4 (drop 20 png)))
      else None)"

text \<open>
  \<open>filterScanlines\<close> as the specification words it: a filter-type byte 0 in front of
  every row of \<open>width * 4\<close> bytes. It is compared below with the loop of \<open>save_png\<close>.
\<close>

definition filterScanlines :: "byte list \<Rightarrow> nat \<Rightarrow> nat \<Rightarrow> byte list" where
  "filterScanlines pixels width height =
     concat (map (\<lambda>y. 0 # take (width * 4) (drop (y * (width * 4)) pixels)) [0 ..< height])"






section \<open>Properties of the container encoder\<close>

lemma bind_err_Inr [simp]: "bind_err (Inr v) f = f v"
  by (simp add: bind_err_def)

lemma bind_err_Inl [simp]: "bind_err (Inl e) f = Inl e"
  by (simp add: bind_err_def)


lemma length_be32 [simp]: "length (be32 n) = 4"
  by (simp add: be32_def)

lemma uint_byte_of_int: "uint (word_of_int k :: byte) = k mod 256"
  by (simp add: uint_word_of_int)

lemma from_be_be32:
  assumes "0 \<le> n" "n < 4294967296"
  shows "from_be (be32 n) = n"
proof -
  define a where "a = n div 256"
  define b where "b = a div 256"
  define c where "c = b div 256"
  have b_eq: "n div 65536 = b"
    using zdiv_zmult2_eq [of 256 n 256] by (simp add: a_def b_def)
  have c_eq: "n div 16777216 = c"
    using zdiv_zmult2_eq [of 256 n 65536] by (simp add: b_eq c_def)
  have c_small: "c mod 256 = c"
    using assms unfolding c_eq [symmetric] by simp
  have n_eq: "n = a * 256 + n mod 256" by (simp add: a_def)
  have a_eq: "a = b * 256 + a mod 256" by (simp add: b_def)
  have b_eq2: "b = c * 256 + b mod 256" by (simp add: c_def)
  have "from_be (be32 n) = ((c mod 256 * 256 + b mod 256) * 256 + a mod 256) * 256 + n mod 256"
    unfolding from_be_def be32_def by (simp add: uint_byte_of_int b_eq c_eq a_def [symmetric])
  also have "\<dots> = n"
    using c_small n_eq a_eq b_eq2 by simp
  finally show ?thesis .
qed

lemma pack_I_ok: "0 \<le> n \<Longrightarrow> n < 4294967296 \<Longrightarrow> pack_I n = Inr (be32 n)"
  by (simp add: pack_I_def)

lemma mask32_mod: "(k::int) AND 4294967295 = k mod 4294967296"
proof -
  have "k AND 4294967295 = k AND mask 32" by (simp add: mask_eq_exp_minus_1)
  then show ?thesis by (simp add: take_bit_eq_mod flip: take_bit_eq_mask)
qed

text \<open>
  Claim C7. For every tag and every payload whose length fits the 4-byte length field,
  \<open>chunk\<close> returns the big-endian 4-byte payload length, the tag, the payload and the
  big-endian 4-byte checksum of tag followed by payload (the checksum masked to 32 bits);
  \<open>from_be\<close> reads both fields back. For the tag \<open>TEST\<close> and the empty payload the
  result is 12 bytes: a zero length, the tag and the checksum of the tag alone.
\<close>

theorem chunk_layout:
  assumes "length dat < 4294967296"
  shows "chunk crc tag dat =
           Inr (be32 (int (length dat)) @ tag @ dat @ be32 (crc (tag @ dat) mod 4294967296))
         \<and> from_be (be32 (int (length dat))) = int (length dat)
         \<and> from_be (be32 (crc (tag @ dat) mod 4294967296)) = crc (tag @ dat) mod 4294967296
         \<and> chunk crc [84, 69, 83, 84] [] =
             Inr ([0, 0, 0, 0] @ [84, 69, 83, 84] @ be32 (crc [84, 69, 83, 84] mod 4294967296))
         \<and> length ([0, 0, 0, 0] @ [84, 69, 83, 84] @ be32 (crc [84, 69, 83, 84] mod 4294967296)) = 12"
proof -
  have len0: "be32 0 = [0, 0, 0, 0]" by (simp add: be32_def)
  have "chunk crc [84, 69, 83, 84] [] =
          Inr ([0, 0, 0, 0] @ [84, 69, 83, 84] @ be32 (crc [84, 69, 83, 84] mod 4294967296))"
    by (simp add: chunk_def pack_I_def mask32_mod len0)
  then show ?thesis
    using assms by (simp add: chunk_def pack_I_def mask32_mod from_be_be32)
qed

theorem chunk_layout_witness:
  "length [1, 2, 3 :: byte] < 4294967296
   \<and> chunk (\<lambda>bs. 258) [73, 68, 65, 84] [1, 2, 3] =
       Inr [0, 0, 0, 3, 73, 68, 65, 84, 1, 2, 3, 0, 0, 1, 2]"
  using chunk_layout [of "[1, 2, 3]" "\<lambda>bs. 258" "[73, 68, 65, 84]"] by (simp add: be32_def)

lemma filter_rows_append:
  "filter_rows ys stride rgba raw =
     raw @ concat (map (\<lambda>y. 0 # py_slice rgba (y * stride) ((y + 1) * stride)) ys)"
  by (induction ys arbitrary: raw) simp_all

lemma slice_bound_nat: "slice_bound (int k) n = min k n"
  by (simp add: slice_bound_def)

lemma py_slice_row:
  "py_slice rgba (int y * (int w * 4)) ((int y + 1) * (int w * 4))
     = take (w * 4) (drop (y * (w * 4)) rgba)"
proof -
  have e1: "int y * (int w * 4) = int (y * (w * 4))" by simp
  have e2: "(int y + 1) * (int w * 4) = int ((y + 1) * (w * 4))" by (simp add: algebra_simps)
  show ?thesis
  proof (cases "y * (w * 4) \<le> length rgba")
    case True
    then show ?thesis
      unfolding py_slice_def Let_def e1 e2 slice_bound_nat
      by (cases "(y + 1) * (w * 4) \<le> length rgba") (simp_all add: min_def)
  next
    case False
    then show ?thesis
      unfolding py_slice_def Let_def e1 e2 slice_bound_nat by (simp add: min_def)
  qed
qed

lemma py_range_nat: "py_range 0 (int h) = map int [0 ..< h]"
proof (induction h)
  case 0
  then show ?case by (simp add: py_range_def)
next
  case (Suc h)
  have "[0 .. int (Suc h) - 1] = [0 .. int h - 1] @ [int h]"
    using upto_rec2 [of 0 "int h"] by simp
  with Suc show ?case by (simp add: py_range_def)
qed

lemma filter_rows_filterScanlines:
  "filter_rows (py_range 0 (int h)) (int w * 4) rgba [] = filterScanlines rgba w h"
  unfolding filter_rows_append py_range_nat filterScanlines_def
  by (simp add: py_slice_row comp_def o_def)

lemma length_filterScanlines:
  assumes len: "length pixels = w * h * 4"
  shows "length (filterScanlines pixels w h) = h * (1 + w * 4)"
proof -
  have row: "min (length pixels - y * (w * 4)) (w * 4) = w * 4" if "y < h" for y
  proof -
    from that have "(y + 1) * (w * 4) \<le> h * (w * 4)" by (intro mult_le_mono1) simp
    with len show ?thesis by (simp add: algebra_simps)
  qed
  have "map (\<lambda>y. length (0 # take (w * 4) (drop (y * (w * 4)) pixels))) [0 ..< h]
          = map (\<lambda>y. 1 + w * 4) [0 ..< h]"
    by (rule map_cong) (simp_all add: row)
  then have "length (filterScanlines pixels w h) = (\<Sum>y\<leftarrow>[0 ..< h]. 1 + w * 4)"
    unfolding filterScanlines_def length_concat map_map o_def by (rule arg_cong)
  then show ?thesis by (simp add: sum_list_triv)
qed

lemma read_header_layout:
  assumes "0 \<le> w" "w < 4294967296" "0 \<le> h" "h < 4294967296"
  shows "read_header (png_signature @ (be32 13 @ tag_IHDR @ (be32 w @ be32 h @ [8, 6, 0, 0, 0]) @ be32 c) @ rest)
           = Some (w, h)"
proof -
  have f13: "from_be (be32 13) = 13" by (rule from_be_be32) simp_all
  show ?thesis
    unfolding read_header_def
    by (simp add: png_signature_def tag_IHDR_def f13 from_be_be32 assms)
qed

text \<open>
  Claim C1. For a canvas of width \<open>w\<close> and height \<open>h\<close> (both within the 32-bit header
  fields, the compressed data within a chunk's length field), \<open>save_png\<close> writes the fixed
  8-byte signature followed by exactly three chunks: the header chunk with payload
  big-endian \<open>w\<close>, big-endian \<open>h\<close> and the bytes 8, 6, 0, 0, 0; the data chunk with
  payload \<open>compress (filterScanlines pixels)\<close>; and the terminator chunk with empty
  payload. Reading the header back gives \<open>w\<close> and \<open>h\<close>.
\<close>

theorem save_png_layout:
  assumes "0 \<le> w" "w < 4294967296" "0 \<le> h" "h < 4294967296"
    and "length (compress (filter_rows (py_range 0 h) (w * 4) rgba [])) < 4294967296"
  shows "\<exists>c1 c2 c3.
           chunk crc tag_IHDR (be32 w @ be32 h @ [8, 6, 0, 0, 0]) = Inr c1
         \<and> chunk crc tag_IDAT (compress (filterScanlines rgba (nat w) (nat h))) = Inr c2
         \<and> chunk crc tag_IEND [] = Inr c3
         \<and> save_png compress crc w h rgba = Inr (png_signature @ c1 @ c2 @ c3)
         \<and> take 8 (png_signature @ c1 @ c2 @ c3) = png_signature
         \<and> read_header (png_signature @ c1 @ c2 @ c3) = Some (w, h)"
proof -
  have fs: "filter_rows (py_range 0 h) (w * 4) rgba [] = filterScanlines rgba (nat w) (nat h)"
    using filter_rows_filterScanlines [of "nat h" "nat w" rgba] assms by simp
  let ?hdr = "be32 w @ be32 h @ [8, 6, 0, 0, 0]"
  let ?z = "compress (filterScanlines rgba (nat w) (nat h))"
  have hdr: "pack_IHDR w h = Inr ?hdr"
    using assms by (simp add: pack_IHDR_def pack_I_def)
  have c1: "chunk crc tag_IHDR ?hdr
              = Inr (be32 13 @ tag_IHDR @ ?hdr @ be32 (crc (tag_IHDR @ ?hdr) mod 4294967296))"
    using chunk_layout [of ?hdr crc tag_IHDR] by simp
  have c2: "chunk crc tag_IDAT ?z
              = Inr (be32 (int (length ?z)) @ tag_IDAT @ ?z @ be32 (crc (tag_IDAT @ ?z) mod 4294967296))"
    using chunk_layout [of ?z crc tag_IDAT] assms(5) fs by simp
  have c3: "chunk crc tag_IEND []
              = Inr (be32 0 @ tag_IEND @ [] @ be32 (crc (tag_IEND @ []) mod 4294967296))"
    using chunk_layout [of "[]" crc tag_IEND] by simp
  have sp: "save_png compress crc w h rgba
              = Inr (png_signature
                     @ (be32 13 @ tag_IHDR @ ?hdr @ be32 (crc (tag_IHDR @ ?hdr) mod 4294967296))
                     @ (be32 (int (length ?z)) @ tag_IDAT @ ?z @ be32 (crc (tag_IDAT @ ?z) mod 4294967296))
                     @ (be32 0 @ tag_IEND @ [] @ be32 (crc (tag_IEND @ []) mod 4294967296)))"
    unfolding save_png_def Let_def fs hdr bind_err_Inr c1 c2 c3 ..
  have sig: "length png_signature = 8" by (simp add: png_signature_def)
  have rh: "read_header (png_signature
                     @ (be32 13 @ tag_IHDR @ ?hdr @ be32 (crc (tag_IHDR @ ?hdr) mod 4294967296))
                     @ (be32 (int (length ?z)) @ tag_IDAT @ ?z @ be32 (crc (tag_IDAT @ ?z) mod 4294967296))
                     @ (be32 0 @ tag_IEND @ [] @ be32 (crc (tag_IEND @ []) mod 4294967296))) = Some (w, h)"
    using read_header_layout [OF assms(1-4)] by simp
  show ?thesis
    using c1 c2 c3 sp rh sig by (intro exI conjI) (assumption | simp)+
qed


theorem save_png_layout_witness:
  "(0::int) \<le> 1 \<and> (1::int) < 4294967296
   \<and> length (id (filter_rows (py_range 0 1) (1 * 4) [1, 2, 3, 4] [])) < 4294967296
   \<and> (\<exists>c1 c2 c3. save_png id (\<lambda>bs. 0) 1 1 [1, 2, 3, 4] = Inr (png_signature @ c1 @ c2 @ c3)
          \<and> chunk (\<lambda>bs. 0) tag_IDAT (id (filterScanlines [1, 2, 3, 4] (nat 1) (nat 1))) = Inr c2
          \<and> read_header (png_signature @ c1 @ c2 @ c3) = Some (1, 1))"
proof -
  have len: "length (id (filter_rows (py_range 0 1) (1 * 4) [1, 2, 3, 4 :: byte] [])) < 4294967296"
    by (simp add: py_range_def py_slice_def slice_bound_def)
  have a: "(0::int) \<le> 1" and b: "(1::int) < 4294967296" by simp_all
  from save_png_layout [where w = 1 and h = 1 and compress = id and rgba = "[1, 2, 3, 4]"
      and crc = "\<lambda>bs. 0", OF a b a b len] len
  show ?thesis by auto
qed

section \<open>Rounding to the nearest float\<close>

lemma bitlen_pos: "0 < n \<Longrightarrow> 1 \<le> bitlen n"
  using bitlen_eq_zero_iff [of n] bitlen_nonneg [of n] by linarith

lemma ilog2_bounds:
  assumes "0 < x"
  shows "2 powi ilog2 x \<le> x" and "x < 2 powi (ilog2 x + 1)"
proof -
  have "2 powi ilog2 x \<le> x \<and> x < 2 powi (ilog2 x + 1)"
  proof (cases "1 \<le> x")
    case True
    define n where "n = \<lfloor>x\<rfloor>"
    have n: "1 \<le> n" using True by (simp add: n_def le_floor_iff)
    define b where "b = bitlen n"
    have b: "1 \<le> b" using bitlen_pos [of n] n by (simp add: b_def)
    have bb: "2 ^ nat (b - 1) \<le> n" "n < 2 ^ nat b"
      using bitlen_bounds [of n] n by (simp_all add: b_def)
    have il: "ilog2 x = b - 1" using True by (simp add: ilog2_def b_def n_def)
    have p1: "(2::rat) powi (b - 1) = 2 ^ nat (b - 1)"
      using b by (simp add: power_int_nonneg_exp)
    have p2: "(2::rat) powi b = 2 ^ nat b"
      using b by (simp add: power_int_nonneg_exp)
    have f1: "of_int n \<le> x" by (simp add: n_def)
    have f2: "x < of_int n + 1" unfolding n_def by linarith
    have "(of_int (2 ^ nat (b - 1)) :: rat) \<le> of_int n"
      using bb(1) by (simp only: of_int_le_iff)
    then have f3: "(2::rat) ^ nat (b - 1) \<le> of_int n" by simp
    have "(of_int (n + 1) :: rat) \<le> of_int (2 ^ nat b)"
      using bb(2) by (simp only: of_int_le_iff)
    then have f4: "of_int n + 1 \<le> (2::rat) ^ nat b" by simp
    have A: "(2::rat) ^ nat (b - 1) \<le> x" using f1 f3 by linarith
    have B: "x < 2 ^ nat b" using f2 f4 by linarith
    show ?thesis unfolding il p1 using A B p2 by simp
  next
    case False
    define y where "y = 1 / x"
    have y: "1 < y" using False assms by (simp add: y_def)
    define m where "m = \<lceil>y\<rceil> - 1"
    have m: "1 \<le> m" using y unfolding m_def by linarith
    have my: "of_int m < y" "y \<le> of_int m + 1" unfolding m_def by linarith+
    define b where "b = bitlen m"
    have b: "1 \<le> b" using bitlen_pos [of m] m by (simp add: b_def)
    have bb: "2 ^ nat (b - 1) \<le> m" "m < 2 ^ nat b"
      using bitlen_bounds [of m] m by (simp_all add: b_def)
    have il: "ilog2 x = - b" using False by (simp add: ilog2_def b_def m_def y_def)
    have p1: "(2::rat) powi (b - 1) = 2 ^ nat (b - 1)"
      using b by (simp add: power_int_nonneg_exp)
    have p2: "(2::rat) powi b = 2 ^ nat b"
      using b by (simp add: power_int_nonneg_exp)
    have "(of_int (2 ^ nat (b - 1)) :: rat) \<le> of_int m"
      using bb(1) by (simp only: of_int_le_iff)
    then have "(2::rat) ^ nat (b - 1) \<le> of_int m" by simp
    then have lo: "2 powi (b - 1) < y" using my(1) unfolding p1 by linarith
    have "(of_int (m + 1) :: rat) \<le> of_int (2 ^ nat b)"
      using bb(2) by (simp only: of_int_le_iff)
    then have "of_int m + 1 \<le> (2::rat) ^ nat b" by simp
    then have hi: "y \<le> 2 powi b" using my(2) unfolding p2 by linarith
    have x: "x = 1 / y" using assms by (simp add: y_def)
    have "2 powi (- b) \<le> x"
      unfolding x power_int_minus_divide using hi y by (simp add: frac_le)
    moreover have "x < 2 powi (- b + 1)"
    proof -
      have "(2::rat) powi (- b + 1) = 1 / 2 powi (b - 1)"
        using power_int_minus_divide [of "2::rat" "b - 1"] by simp
      moreover have "1 / y < 1 / 2 powi (b - 1)"
        using lo by (simp add: frac_less2)
      ultimately show ?thesis unfolding x by simp
    qed
    ultimately show ?thesis unfolding il by simp
  qed
  then show "2 powi ilog2 x \<le> x" and "x < 2 powi (ilog2 x + 1)" by simp_all
qed

lemma pow2_less_iff: "(2::rat) powi a < 2 powi b \<longleftrightarrow> a < b"
proof
  assume "(2::rat) powi a < 2 powi b"
  show "a < b"
  proof (rule ccontr)
    assume "\<not> a < b"
    then have "b \<le> a" by simp
    then have "(2::rat) powi b \<le> 2 powi a" by (rule power_int_increasing) simp
    with \<open>(2::rat) powi a < 2 powi b\<close> show False by simp
  qed
next
  assume "a < b"
  then show "(2::rat) powi a < 2 powi b" by (rule power_int_strict_increasing) simp
qed

lemma pow2_le_iff: "(2::rat) powi a \<le> 2 powi b \<longleftrightarrow> a \<le> b"
  using pow2_less_iff [of b a] by (simp add: not_less [symmetric])


lemma ilog2_mono:
  assumes "0 < x" "x \<le> y"
  shows "ilog2 x \<le> ilog2 y"
proof -
  have "0 < y" using assms by linarith
  have "2 powi ilog2 x \<le> x" using ilog2_bounds(1) [OF assms(1)] .
  also have "x \<le> y" by fact
  also have "y < 2 powi (ilog2 y + 1)" using ilog2_bounds(2) [OF \<open>0 < y\<close>] .
  finally have "ilog2 x < ilog2 y + 1" by (simp only: pow2_less_iff)
  then show ?thesis by simp
qed

lemma rhe_of_int [simp]: "round_half_even (of_int n) = n"
  by (simp add: round_half_even_def)

lemma rhe_unfold:
  assumes "f = \<lfloor>y\<rfloor>"
  shows "round_half_even y =
           (if y - of_int f < 1 / 2 then f else if 1 / 2 < y - of_int f then f + 1
            else if even f then f else f + 1)"
  by (simp add: round_half_even_def Let_def assms)


lemma rhe_cases:
  "round_half_even y = \<lfloor>y\<rfloor> \<or> round_half_even y = \<lfloor>y\<rfloor> + 1"
  unfolding round_half_even_def Let_def by auto

lemma rhe_mono:
  assumes "x \<le> y"
  shows "round_half_even x \<le> round_half_even y"
proof (cases "\<lfloor>x\<rfloor> = \<lfloor>y\<rfloor>")
  case True
  then show ?thesis
    using assms unfolding round_half_even_def Let_def by (auto split: if_splits)
next
  case False
  with assms have lt: "\<lfloor>x\<rfloor> + 1 \<le> \<lfloor>y\<rfloor>" using floor_mono [of x y] by linarith
  have "round_half_even x \<le> \<lfloor>x\<rfloor> + 1" using rhe_cases [of x] by linarith
  moreover have "\<lfloor>y\<rfloor> \<le> round_half_even y" using rhe_cases [of y] by linarith
  ultimately show ?thesis using lt by linarith
qed

lemma rhe_ge: "of_int n \<le> y \<Longrightarrow> n \<le> round_half_even y"
  using rhe_mono [of "of_int n" y] by simp

lemma rhe_le: "y \<le> of_int n \<Longrightarrow> round_half_even y \<le> n"
  using rhe_mono [of y "of_int n"] by simp

lemma rhe_neg: "round_half_even (- y) = - round_half_even y"
proof (cases "y = of_int \<lfloor>y\<rfloor>")
  case True
  define n where "n = \<lfloor>y\<rfloor>"
  have y: "y = of_int n" using True by (simp add: n_def)
  have "round_half_even (- y) = round_half_even (of_int (- n))" by (simp add: y)
  also have "\<dots> = - n" by (rule rhe_of_int)
  finally show ?thesis by (simp add: y)
next
  case False
  define f where "f = \<lfloor>y\<rfloor>"
  have fl: "of_int f < y" "y < of_int f + 1" using False unfolding f_def by linarith+
  have nf: "- f - 1 = \<lfloor>- y\<rfloor>" using fl by (intro floor_unique [symmetric]) simp_all
  show ?thesis
    unfolding rhe_unfold [OF f_def] rhe_unfold [OF nf] using fl by (auto split: if_splits)
qed


lemma pow2_add: "(2::rat) powi (a + b) = 2 powi a * 2 powi b"
  by (rule power_int_add) simp

lemma pow2_diff: "(2::rat) powi (a - b) = 2 powi a / 2 powi b"
  by (rule power_int_diff) simp

lemma pow2_nat: "0 \<le> e \<Longrightarrow> (2::rat) powi e = of_int (2 ^ nat e)"
  by (simp add: power_int_nonneg_exp)

lemma ulp_exp_neg [simp]: "ulp_exp (- x) = ulp_exp x"
  by (simp add: ulp_exp_def)

lemma rnd_0 [simp]: "rnd 0 = 0"
  by (simp add: rnd_def)

lemma rnd_neg: "rnd (- x) = - rnd x"
  by (simp add: rnd_def rhe_neg)

lemma rnd_nonneg: "0 \<le> x \<Longrightarrow> 0 \<le> rnd x"
proof -
  assume "0 \<le> x"
  then have "of_int 0 \<le> x / 2 powi ulp_exp x" by simp
  then have "0 \<le> round_half_even (x / 2 powi ulp_exp x)" by (rule rhe_ge)
  then show ?thesis by (simp add: rnd_def)
qed




lemma ulp_exp_le:
  assumes "x \<noteq> 0" "\<bar>x\<bar> < 2 powi (k + 53)" "- 1074 \<le> k"
  shows "ulp_exp x \<le> k"
proof -
  have pos: "0 < \<bar>x\<bar>" using assms(1) by simp
  have "(2::rat) powi ilog2 \<bar>x\<bar> < 2 powi (k + 53)"
    using ilog2_bounds(1) [OF pos] assms(2) by linarith
  then have "ilog2 \<bar>x\<bar> < k + 53" by (simp only: pow2_less_iff)
  then show ?thesis using assms(3) by (simp add: ulp_exp_def)
qed

lemma rnd_exact:
  assumes x: "x = of_int m * 2 powi k" and m: "\<bar>m\<bar> < 2 ^ 53" and k: "- 1074 \<le> k"
  shows "rnd x = x"
proof (cases "x = 0")
  case True
  then show ?thesis by simp
next
  case False
  define e where "e = ulp_exp x"
  have "(of_int \<bar>m\<bar> :: rat) < of_int (2 ^ 53)" using m by (simp only: of_int_less_iff)
  then have "\<bar>of_int m :: rat\<bar> < 2 ^ 53" by simp
  then have "\<bar>x\<bar> < 2 ^ 53 * 2 powi k"
    unfolding x abs_mult by (simp add: power_int_abs [symmetric])
  also have "\<dots> = 2 powi (k + 53)" using pow2_add [of k 53] by simp
  finally have "e \<le> k" unfolding e_def using ulp_exp_le [OF False _ k] by simp
  then have ke: "0 \<le> k - e" by simp
  have "x / 2 powi e = of_int m * 2 powi (k - e)"
    unfolding x pow2_diff by simp
  also have "\<dots> = of_int (m * 2 ^ nat (k - e))"
    unfolding pow2_nat [OF ke] by simp
  finally have q: "x / 2 powi e = of_int (m * 2 ^ nat (k - e))" .
  have "rnd x = of_int (round_half_even (x / 2 powi e)) * 2 powi e"
    using False by (simp add: rnd_def e_def)
  also have "\<dots> = x / 2 powi e * 2 powi e"
    unfolding q rhe_of_int ..
  also have "\<dots> = x" by simp
  finally show ?thesis .
qed

lemma ulp_exp_mono:
  assumes "0 < x" "x \<le> y"
  shows "ulp_exp x \<le> ulp_exp y"
  using ilog2_mono [of "\<bar>x\<bar>" "\<bar>y\<bar>"] assms by (simp add: ulp_exp_def)

lemma rnd_pos_unfold:
  "x \<noteq> 0 \<Longrightarrow> rnd x = of_int (round_half_even (x / 2 powi ulp_exp x)) * 2 powi ulp_exp x"
  by (simp add: rnd_def)

lemma rnd_mono_pos:
  assumes "0 < x" "x \<le> y"
  shows "rnd x \<le> rnd y"
proof -
  have ypos: "0 < y" using assms by linarith
  define ex where "ex = ulp_exp x"
  define ey where "ey = ulp_exp y"
  have rx: "rnd x = of_int (round_half_even (x / 2 powi ex)) * 2 powi ex"
    using assms(1) by (simp add: rnd_pos_unfold ex_def)
  have ry: "rnd y = of_int (round_half_even (y / 2 powi ey)) * 2 powi ey"
    using ypos by (simp add: rnd_pos_unfold ey_def)
  have le: "ex \<le> ey" unfolding ex_def ey_def using assms by (rule ulp_exp_mono)
  show ?thesis
  proof (cases "ex = ey")
    case True
    have "x / 2 powi ey \<le> y / 2 powi ey" using assms(2) by (simp add: divide_right_mono)
    then have "round_half_even (x / 2 powi ey) \<le> round_half_even (y / 2 powi ey)"
      by (rule rhe_mono)
    then have "(of_int (round_half_even (x / 2 powi ey)) :: rat) \<le> of_int (round_half_even (y / 2 powi ey))"
      by (simp only: of_int_le_iff)
    then show ?thesis unfolding rx ry True by (intro mult_right_mono) simp_all
  next
    case False
    with le have lt: "ex + 1 \<le> ey" by simp
    define B where "B = (2::rat) powi (ex + 53)"
    have "ilog2 \<bar>x\<bar> \<le> ex + 52" by (simp add: ex_def ulp_exp_def)
    then have "(2::rat) powi (ilog2 x + 1) \<le> 2 powi (ex + 53)"
      using assms(1) by (simp only: pow2_le_iff)
    then have xB: "x \<le> B"
      using ilog2_bounds(2) [OF assms(1)] unfolding B_def by linarith
    have "x / 2 powi ex \<le> B / 2 powi ex" using xB by (simp add: divide_right_mono)
    also have "B / 2 powi ex = of_int (2 ^ 53)"
      unfolding B_def using pow2_diff [of "ex + 53" ex] by simp
    finally have "round_half_even (x / 2 powi ex) \<le> 2 ^ 53" by (rule rhe_le)
    then have "(of_int (round_half_even (x / 2 powi ex)) :: rat) \<le> of_int (2 ^ 53)"
      by (simp only: of_int_le_iff)
    then have "rnd x \<le> of_int (2 ^ 53) * 2 powi ex"
      unfolding rx by (intro mult_right_mono) simp_all
    also have "\<dots> = B" unfolding B_def using pow2_add [of ex 53] by simp
    finally have 1: "rnd x \<le> B" .
    have "- 1022 < ey + 52" using lt by (simp add: ex_def ulp_exp_def)
    then have il: "ilog2 \<bar>y\<bar> = ey + 52" by (simp add: ey_def ulp_exp_def max_def split: if_splits)
    have yl: "2 powi (ey + 52) \<le> y"
      using ilog2_bounds(1) [OF ypos] il ypos by simp
    have "of_int (2 ^ 52) = (2::rat) powi (ey + 52) / 2 powi ey"
      using pow2_diff [of "ey + 52" ey] by simp
    also have "\<dots> \<le> y / 2 powi ey" using yl by (simp add: divide_right_mono)
    finally have "2 ^ 52 \<le> round_half_even (y / 2 powi ey)" by (rule rhe_ge)
    then have "(of_int (2 ^ 52) :: rat) \<le> of_int (round_half_even (y / 2 powi ey))"
      by (simp only: of_int_le_iff)
    then have "of_int (2 ^ 52) * 2 powi ey \<le> rnd y"
      unfolding ry by (intro mult_right_mono) simp_all
    moreover have "of_int (2 ^ 52) * 2 powi ey = (2::rat) powi (ey + 52)"
      using pow2_add [of ey 52] by simp
    moreover have "B \<le> 2 powi (ey + 52)"
      unfolding B_def using lt by (simp only: pow2_le_iff)
    ultimately have 2: "B \<le> rnd y" by linarith
    from 1 2 show ?thesis by linarith
  qed
qed

lemma rnd_mono:
  assumes "x \<le> y"
  shows "rnd x \<le> rnd y"
proof -
  consider "0 < x" | "x \<le> 0" "0 \<le> y" | "y < 0" by linarith
  then show ?thesis
  proof cases
    case 1
    then show ?thesis using assms by (rule rnd_mono_pos)
  next
    case 2
    have "rnd x \<le> 0" using rnd_nonneg [of "- x"] 2(1) by (simp add: rnd_neg)
    moreover have "0 \<le> rnd y" using 2(2) by (rule rnd_nonneg)
    ultimately show ?thesis by linarith
  next
    case 3
    have "rnd (- y) \<le> rnd (- x)" using 3 assms by (intro rnd_mono_pos) simp_all
    then show ?thesis by (simp add: rnd_neg)
  qed
qed


lemma rnd_pow2: "- 1074 \<le> k \<Longrightarrow> rnd (2 powi k) = 2 powi k"
  using rnd_exact [of "2 powi k" 1 k] by simp

lemma rnd_of_int: "\<bar>n\<bar> \<le> 2 ^ 53 \<Longrightarrow> rnd (of_int n) = of_int n"
proof (cases "\<bar>n\<bar> = 2 ^ 53")
  case True
  then have "n = 2 ^ 53 \<or> n = - (2 ^ 53)" by linarith
  then show ?thesis
  proof
    assume "n = 2 ^ 53"
    then have "(of_int n :: rat) = 2 powi 53" by simp
    then show ?thesis using rnd_pow2 [of 53] by simp
  next
    assume "n = - (2 ^ 53)"
    then have "(of_int n :: rat) = - (2 powi 53)" by simp
    then show ?thesis using rnd_pow2 [of 53] by (simp add: rnd_neg)
  qed
next
  case False
  assume "\<bar>n\<bar> \<le> 2 ^ 53"
  with False have "\<bar>n\<bar> < 2 ^ 53" by linarith
  then show ?thesis using rnd_exact [of "of_int n" n 0] by simp
qed

lemma rnd_abs_le:
  assumes "\<bar>x\<bar> \<le> B" "rnd B = B"
  shows "\<bar>rnd x\<bar> \<le> B"
proof -
  have "x \<le> B" and "- B \<le> x" using assms(1) by linarith+
  then have "rnd x \<le> rnd B" and "rnd (- B) \<le> rnd x" by (simp_all add: rnd_mono)
  then show ?thesis unfolding rnd_neg assms(2) by linarith
qed

lemma fl_Fin:
  assumes "\<bar>x\<bar> \<le> 2 ^ 1023"
  shows "fl x = Fin (rnd x)"
proof -
  have "rnd (2 powi 1023) = (2::rat) powi 1023" by (rule rnd_pow2) simp
  then have "rnd (2 ^ 1023) = (2::rat) ^ 1023" by simp
  with assms have "\<bar>rnd x\<bar> \<le> 2 ^ 1023" by (rule rnd_abs_le)
  moreover have "(2::rat) ^ 1023 < 2 ^ 1024" by simp
  ultimately have "\<not> 2 ^ 1024 \<le> rnd x" "\<not> rnd x \<le> - (2 ^ 1024)" by linarith+
  then show ?thesis by (simp add: fl_def Let_def)
qed

lemma fl_of_int: "\<bar>n\<bar> \<le> 2 ^ 53 \<Longrightarrow> fl (of_int n) = Fin (of_int n)"
proof -
  assume n: "\<bar>n\<bar> \<le> 2 ^ 53"
  then have "(of_int \<bar>n\<bar> :: rat) \<le> of_int (2 ^ 53)" by (simp only: of_int_le_iff)
  then have "\<bar>of_int n :: rat\<bar> \<le> 2 ^ 53" by simp
  moreover have "(2::rat) ^ 53 \<le> 2 ^ 1023" by simp
  ultimately have "\<bar>of_int n :: rat\<bar> \<le> 2 ^ 1023" by linarith
  then show ?thesis using rnd_of_int [OF n] by (simp add: fl_Fin)
qed

lemma to_float_small: "\<bar>n\<bar> \<le> 2 ^ 53 \<Longrightarrow> to_float n = Inr (Fin (of_int n))"
  by (simp add: to_float_def fl_of_int)





lemma rnd_le_int: "x \<le> of_int n \<Longrightarrow> \<bar>n\<bar> \<le> 2 ^ 53 \<Longrightarrow> rnd x \<le> of_int n"
  using rnd_mono [of x "of_int n"] rnd_of_int [of n] by simp


section \<open>The arithmetic of \<open>blend\<close>\<close>








lemma fl_Fin_small: "\<bar>x\<bar> \<le> 2 ^ 20 \<Longrightarrow> fl x = Fin (rnd x)"
proof -
  assume "\<bar>x\<bar> \<le> 2 ^ 20"
  moreover have "(2::rat) ^ 20 \<le> 2 ^ 1023" by simp
  ultimately have "\<bar>x\<bar> \<le> 2 ^ 1023" by linarith
  then show ?thesis by (rule fl_Fin)
qed













lemma fl_0 [simp]: "fl 0 = Fin 0"
  using fl_of_int [of 0] by simp

lemma fl_1 [simp]: "fl 1 = Fin 1"
  using fl_of_int [of 1] by simp
























lemma fl_numeral [simp]: "numeral n \<le> (2 ^ 53 :: int) \<Longrightarrow> fl (numeral n) = Fin (numeral n)"
  using fl_of_int [of "numeral n"] by simp

lemma fl_neg_numeral [simp]:
  "numeral n \<le> (2 ^ 53 :: int) \<Longrightarrow> fl (- numeral n) = Fin (- numeral n)"
  using fl_of_int [of "- numeral n"] by simp

lemma py_range_empty [simp]: "b \<le> a \<Longrightarrow> py_range a b = []"
  by (simp add: py_range_def)





lemma fl_unit:
  assumes "0 \<le> x" "x \<le> 1"
  shows "fl x = Fin (rnd x)" "0 \<le> rnd x" "rnd x \<le> 1"
proof -
  have "\<bar>x\<bar> \<le> 2 ^ 20" using assms by simp
  then show "fl x = Fin (rnd x)" by (rule fl_Fin_small)
  show "0 \<le> rnd x" using assms(1) by (rule rnd_nonneg)
  have "x \<le> of_int 1" using assms(2) by simp
  then have "rnd x \<le> of_int 1" by (rule rnd_le_int) simp
  then show "rnd x \<le> 1" by simp
qed



lemma clamp01_cases: "clamp01 v = v \<or> clamp01 v = Fin 0 \<or> clamp01 v = Fin 1"
  by (auto simp: clamp01_def fmin_def fmax_def)







lemma mix1_zero:
  assumes "0 \<le> a" "a \<le> 255" "0 \<le> b" "b \<le> 255"
  shows "mix1 a b (Fin 0) = Inr a"
proof -
  have fd: "to_float (b - a) = Inr (Fin (of_int (b - a)))" using assms by (intro to_float_small) simp
  have fa: "to_float a = Inr (Fin (of_int a))" using assms by (intro to_float_small) simp
  have "fl (of_int a) = Fin (of_int a)" using assms by (intro fl_of_int) simp
  then show ?thesis
    unfolding mix1_def lerp_def fd fa bind_err_Inr by simp
qed

lemma gradient_t_zero: "gradient_t (Fin 0) (Fin 0) = Fin 0"
proof -
  have c6: "fl (6 / 10) = Fin (rnd (6 / 10))" using fl_unit(1) [of "6 / 10"] by simp
  have c9: "fl (9 / 10) = Fin (rnd (9 / 10))" using fl_unit(1) [of "9 / 10"] by simp
  show ?thesis
    unfolding gradient_t_def c6 c9 by (simp add: fmin_def fmax_def)
qed

text \<open>
  Claim C8. On a 1 by 1 canvas \<open>fill_linear_gradient\<close> raises nothing, in particular no
  ZeroDivisionError: both normalised coordinates are \<open>0 / max(1, 0) = 0.0\<close>, the
  parameter \<open>t\<close> is \<open>0.0\<close>, \<open>mix\<close> returns the first colour, and the four bytes of the
  pixel are replaced by the top-left colour whatever the buffer held before.
\<close>

theorem gradient_one_pixel:
  assumes len: "length px = 4"
    and c1: "0 \<le> r1" "r1 \<le> 255" "0 \<le> g1" "g1 \<le> 255" "0 \<le> b1" "b1 \<le> 255" "0 \<le> a1" "a1 \<le> 255"
    and c2: "0 \<le> r2" "r2 \<le> 255" "0 \<le> g2" "g2 \<le> 255" "0 \<le> b2" "b2 \<le> 255" "0 \<le> a2" "a2 \<le> 255"
  shows "int_truediv 0 (max 1 (1 - 1)) = Inr (Fin 0)
       \<and> gradient_t (Fin 0) (Fin 0) = Fin 0
       \<and> mix (r1, g1, b1, a1) (r2, g2, b2, a2) (Fin 0) = Inr [r1, g1, b1, a1]
       \<and> fill_linear_gradient px 1 1 (r1, g1, b1, a1) (r2, g2, b2, a2)
           = Inr [word_of_int r1, word_of_int g1, word_of_int b1, word_of_int a1]"
proof -
  have d: "int_truediv 0 (max 1 (1 - 1)) = Inr (Fin 0)" by (simp add: int_truediv_def)
  have m: "mix (r1, g1, b1, a1) (r2, g2, b2, a2) (Fin 0) = Inr [r1, g1, b1, a1]"
    unfolding mix_def prod.case
    by (simp add: mix1_zero [OF c1(1,2) c2(1,2)] mix1_zero [OF c1(3,4) c2(3,4)]
        mix1_zero [OF c1(5,6) c2(5,6)] mix1_zero [OF c1(7,8) c2(7,8)])
  have b: "py_bytes [r1, g1, b1, a1] = Inr [word_of_int r1, word_of_int g1, word_of_int b1, word_of_int a1]"
    using c1 by (simp add: py_bytes_def)
  have s: "py_slice_assign px 0 4 bs = bs" if "length bs = 4" for bs :: "byte list"
    using len that by (simp add: py_slice_assign_def slice_bound_def)
  have r: "py_range 0 1 = [0]" by (simp add: py_range_def upto.simps)
  have d': "int_truediv 0 1 = Inr (Fin 0)" by (simp add: int_truediv_def)
  have "fill_linear_gradient px 1 1 (r1, g1, b1, a1) (r2, g2, b2, a2)
           = Inr [word_of_int r1, word_of_int g1, word_of_int b1, word_of_int a1]"
    unfolding fill_linear_gradient_def r
    by (simp add: d' gradient_t_zero m b s)
  with d m gradient_t_zero show ?thesis by simp
qed

theorem gradient_one_pixel_witness:
  "length [9, 9, 9, 9 :: byte] = 4 \<and> (0::int) \<le> 8 \<and> (8::int) \<le> 255
   \<and> fill_linear_gradient [9, 9, 9, 9] 1 1 (8, 14, 37, 255) (34, 107, 255, 255)
       = Inr [8, 14, 37, 255]"
  using gradient_one_pixel [where px = "[9, 9, 9, 9]" and ?r1.0 = 8 and ?g1.0 = 14 and ?b1.0 = 37
      and ?a1.0 = 255 and ?r2.0 = 34 and ?g2.0 = 107 and ?b2.0 = 255 and ?a2.0 = 255]
  by simp











section \<open>Coverage of the soft disc\<close>

lemma fl_Fin_1001:
  assumes "\<bar>x\<bar> \<le> 2 ^ 1001"
  shows "fl x = Fin (rnd x)"
proof -
  have "(2::rat) ^ 1001 \<le> 2 ^ 1023" by simp
  with assms have "\<bar>x\<bar> \<le> 2 ^ 1023" by linarith
  then show ?thesis by (rule fl_Fin)
qed

lemma rnd_abs_le_pow2: "\<bar>x\<bar> \<le> 2 ^ n \<Longrightarrow> rnd (2 ^ n) = (2::rat) ^ n \<Longrightarrow> \<bar>rnd x\<bar> \<le> 2 ^ n"
  by (rule rnd_abs_le)

lemma rnd_pow2_nat: "rnd (2 ^ n) = (2::rat) ^ n"
  using rnd_pow2 [of "int n"] by simp

lemma clamp01_fl: "clamp01 (fl x) = Fin (max 0 (min 1 (rnd x)))"
proof -
  define P :: rat where "P = 2 ^ 1024"
  have P: "1 \<le> P" unfolding P_def by simp
  have flP: "fl x = (if P \<le> rnd x then PInf else if rnd x \<le> - P then NInf else Fin (rnd x))"
    unfolding P_def by (simp add: fl_def Let_def)
  consider "P \<le> rnd x" | "rnd x \<le> - P" | "\<not> P \<le> rnd x" "\<not> rnd x \<le> - P"
    by blast
  then show ?thesis
  proof cases
    case 1
    with P have "1 \<le> rnd x" by linarith
    with 1 show ?thesis unfolding flP by (simp add: clamp01_def fmin_def fmax_def)
  next
    case 2
    with P have "rnd x \<le> 0" "\<not> P \<le> rnd x" by linarith+
    with 2 show ?thesis unfolding flP by (simp add: clamp01_def fmin_def fmax_def)
  next
    case 3
    then show ?thesis unfolding flP by (simp add: clamp01_def fmin_def fmax_def max_def min_def)
  qed
qed

lemma float_double_nonzero:
  assumes "is_float (Fin f)" "0 < f"
  shows "0 < rnd (2 * f)"
proof -
  have "rnd f = f" using assms(1) by (auto simp: is_float_def fl_def Let_def split: if_splits)
  moreover have "rnd f \<le> rnd (2 * f)" using assms(2) by (intro rnd_mono) simp
  ultimately show ?thesis using assms(2) by linarith
qed

text \<open>The values of \<open>soft_circle_alpha\<close> in terms of the computed thresholds.\<close>

lemma soft_circle_alpha_values:
  assumes r: "\<bar>r\<bar> \<le> 2 ^ 1000" and f: "\<bar>f\<bar> \<le> 2 ^ 1000" "0 \<le> f" "is_float (Fin f)"
  defines "L \<equiv> rnd (r - f)" and "H \<equiv> rnd (r + f)" and "T \<equiv> rnd (2 * f)"
  shows "fsub (Fin r) (Fin f) = Fin L" and "fadd (Fin r) (Fin f) = Fin H"
    and "fmul (Fin 2) (Fin f) = Fin T" and "L \<le> H" and "L < H \<Longrightarrow> 0 < T"
    and "soft_circle_alpha (Fin d) (Fin r) (Fin f) =
           (if d \<le> L then Inr (Fin 1)
            else if d \<le> H then Inr (Fin (max 0 (min 1 (rnd (rnd (H - d) / T)))))
            else Inr (Fin 0))"
proof -
  have p: "(2::rat) ^ 1001 = 2 * 2 ^ 1000" by simp
  have b1: "\<bar>r - f\<bar> \<le> 2 ^ 1001" and b2: "\<bar>r + f\<bar> \<le> 2 ^ 1001" and b3: "\<bar>2 * f\<bar> \<le> 2 ^ 1001"
    unfolding p using r f by linarith+
  show L: "fsub (Fin r) (Fin f) = Fin L" using b1 by (simp add: fsub_def fl_Fin_1001 L_def)
  show H: "fadd (Fin r) (Fin f) = Fin H" using b2 by (simp add: fl_Fin_1001 H_def)
  show T: "fmul (Fin 2) (Fin f) = Fin T" using b3 by (simp add: fl_Fin_1001 T_def)
  show LH: "L \<le> H" unfolding L_def H_def using f(2) by (intro rnd_mono) simp
  have Tpos: "0 < T" if "L < H"
  proof -
    have "f \<noteq> 0" using that by (auto simp: L_def H_def)
    with f(2) have "0 < f" by simp
    then show ?thesis unfolding T_def using f(3) by (intro float_double_nonzero)
  qed
  then show "L < H \<Longrightarrow> 0 < T" .
  have Hb: "\<bar>H\<bar> \<le> 2 ^ 1001" unfolding H_def using b2 rnd_pow2_nat by (rule rnd_abs_le)
  have Lb: "\<bar>L\<bar> \<le> 2 ^ 1001" unfolding L_def using b1 rnd_pow2_nat by (rule rnd_abs_le)
  show "soft_circle_alpha (Fin d) (Fin r) (Fin f) =
           (if d \<le> L then Inr (Fin 1)
            else if d \<le> H then Inr (Fin (max 0 (min 1 (rnd (rnd (H - d) / T)))))
            else Inr (Fin 0))"
  proof (cases "d \<le> L")
    case True
    then show ?thesis unfolding soft_circle_alpha_def L by simp
  next
    case nL: False
    show ?thesis
    proof (cases "d \<le> H")
      case True
      with nL have "L < H" by linarith
      then have Tp: "0 < T" by (rule Tpos)
      have "\<bar>H - d\<bar> \<le> \<bar>H\<bar> + \<bar>L\<bar>" using True nL by linarith
      also have "\<dots> \<le> 2 ^ 1001 + 2 ^ 1001" using Hb Lb by linarith
      also have "\<dots> \<le> (2::rat) ^ 1023" by simp
      finally have X: "fsub (Fin H) (Fin d) = Fin (rnd (H - d))"
        by (simp add: fsub_def fl_Fin)
      have "fdiv (Fin (rnd (H - d))) (Fin T) = Inr (fl (rnd (H - d) / T))"
        using Tp by (simp add: fdiv_def)
      then show ?thesis
        using True nL unfolding soft_circle_alpha_def L H T X by (simp add: clamp01_fl)
    next
      case False
      with nL show ?thesis unfolding soft_circle_alpha_def L H by simp
    qed
  qed
qed

lemma soft_circle_alpha_range:
  assumes r: "\<bar>r\<bar> \<le> 2 ^ 1000" and f: "\<bar>f\<bar> \<le> 2 ^ 1000" "0 \<le> f" "is_float (Fin f)"
  shows "\<exists>c. soft_circle_alpha (Fin d) (Fin r) (Fin f) = Inr (Fin c) \<and> 0 \<le> c \<and> c \<le> 1"
  unfolding soft_circle_alpha_values(6) [OF assms] by auto

lemma soft_circle_alpha_mono:
  assumes r: "\<bar>r\<bar> \<le> 2 ^ 1000" and f: "\<bar>f\<bar> \<le> 2 ^ 1000" "0 \<le> f" "is_float (Fin f)"
    and d: "d1 \<le> d2"
  shows "\<exists>c1 c2. soft_circle_alpha (Fin d1) (Fin r) (Fin f) = Inr (Fin c1)
           \<and> soft_circle_alpha (Fin d2) (Fin r) (Fin f) = Inr (Fin c2) \<and> c2 \<le> c1"
proof -
  define L where "L = rnd (r - f)"
  define H where "H = rnd (r + f)"
  define T where "T = rnd (2 * f)"
  note v = soft_circle_alpha_values [OF r f, folded L_def H_def T_def]
  consider "d2 \<le> L" | "d1 \<le> L" "L < d2" | "L < d1" "d2 \<le> H" | "L < d1" "H < d2"
    by linarith
  then show ?thesis
  proof cases
    case 1
    with d have "d1 \<le> L" by linarith
    with 1 show ?thesis unfolding v(6) by simp
  next
    case 2
    then show ?thesis unfolding v(6) by auto
  next
    case 3
    with d have d1H: "d1 \<le> H" and d2L: "\<not> d2 \<le> L" and d1L: "\<not> d1 \<le> L" by linarith+
    from 3 d have "L < H" by linarith
    then have Tp: "0 < T" by (rule v(5))
    have "rnd (H - d2) \<le> rnd (H - d1)" using d by (intro rnd_mono) simp
    then have "rnd (H - d2) / T \<le> rnd (H - d1) / T" using Tp by (simp add: divide_right_mono)
    then have "rnd (rnd (H - d2) / T) \<le> rnd (rnd (H - d1) / T)" by (rule rnd_mono)
    then have "max 0 (min 1 (rnd (rnd (H - d2) / T))) \<le> max 0 (min 1 (rnd (rnd (H - d1) / T)))"
      by (auto simp: max_def min_def)
    then show ?thesis unfolding v(6) using 3(2) d1H d2L d1L by simp
  next
    case 4
    then have "\<not> d2 \<le> L" "\<not> d2 \<le> H" using v(4) by linarith+
    then show ?thesis unfolding v(6) by auto
  qed
qed

lemma fl_dyadic:
  assumes "\<bar>m\<bar> < 2 ^ 53" "k \<le> 1074"
  shows "fl (of_int m / 2 ^ k) = Fin (of_int m / 2 ^ k)"
proof -
  define x :: rat where "x = of_int m / 2 ^ k"
  have x: "x = of_int m * 2 powi (- int k)"
    by (simp add: x_def power_int_minus field_simps)
  have e: "rnd x = x" using x assms(1) by (rule rnd_exact) (use assms(2) in simp)
  have "(1::rat) \<le> 2 ^ k" by simp
  then have "\<bar>x\<bar> \<le> \<bar>of_int m\<bar>"
    unfolding x_def abs_divide by (simp add: field_simps mult_left_mono mult_le_cancel_left1)
  moreover have "\<bar>of_int m :: rat\<bar> \<le> 2 ^ 53"
  proof -
    have "(of_int \<bar>m\<bar> :: rat) \<le> of_int (2 ^ 53)" using assms(1) by (simp only: of_int_le_iff)
    then show ?thesis by simp
  qed
  moreover have "(2::rat) ^ 53 \<le> 2 ^ 1023" by simp
  ultimately have "\<bar>x\<bar> \<le> 2 ^ 1023" by linarith
  then have "fl x = Fin (rnd x)" by (rule fl_Fin)
  then have "fl x = Fin x" by (simp only: e)
  then show ?thesis unfolding x_def .
qed

text \<open>
  Claim C4 says that the soft disc's coverage is exactly 0 for every pixel with
  \<open>d \<ge> r + f\<close>. With feather 0 the two thresholds coincide and the first test
  \<open>d <= r - feather\<close> wins: at \<open>d = r = 1\<close>, \<open>f = 0\<close> the coverage is 1.0.
\<close>

theorem soft_circle_counterexample:
  "soft_circle_alpha (Fin 1) (Fin 1) (Fin 0) = Inr (Fin 1)
   \<and> fle (fadd (Fin 1) (Fin 0)) (Fin 1)"
  by (simp add: soft_circle_alpha_def fsub_def)

text \<open>
  Claim C4, amended. Let the feather \<open>f\<close> be a non-negative float and let the thresholds
  \<open>r - f\<close> and \<open>r + f\<close> be as the script computes them, in floating point (magnitudes up
  to \<open>2^1000\<close>, so that nothing overflows). The coverage at distance \<open>d\<close> is exactly 1.0
  for \<open>d \<le> r - f\<close>; it is the ramp \<open>(r + f - d) / (2 f)\<close>, computed in floating point and
  clamped to \<open>[0, 1]\<close>, for \<open>r - f < d \<le> r + f\<close>, and no division by zero occurs there;
  it is exactly 0 for \<open>d > r + f\<close>, and also at \<open>d = r + f\<close> provided \<open>r - f < r + f\<close>;
  with feather 0 the coverage at \<open>d = r + f\<close> is 1.0. The coverage lies in \<open>[0, 1]\<close> and is
  monotonically non-increasing in \<open>d\<close>.
\<close>

theorem soft_circle_coverage:
  assumes "\<bar>r\<bar> \<le> 2 ^ 1000" and "\<bar>f\<bar> \<le> 2 ^ 1000" and "0 \<le> f" and "is_float (Fin f)"
  shows
    "(fle (Fin d) (fsub (Fin r) (Fin f)) \<longrightarrow>
        soft_circle_alpha (Fin d) (Fin r) (Fin f) = Inr (Fin 1))
     \<and> (flt (fsub (Fin r) (Fin f)) (Fin d) \<and> fle (Fin d) (fadd (Fin r) (Fin f)) \<longrightarrow>
        fmul (Fin 2) (Fin f) \<noteq> Fin 0
        \<and> soft_circle_alpha (Fin d) (Fin r) (Fin f) =
            Inr (clamp01 (fquot (fsub (fadd (Fin r) (Fin f)) (Fin d)) (fmul (Fin 2) (Fin f)))))
     \<and> (flt (fadd (Fin r) (Fin f)) (Fin d) \<longrightarrow>
        soft_circle_alpha (Fin d) (Fin r) (Fin f) = Inr (Fin 0))
     \<and> (Fin d = fadd (Fin r) (Fin f) \<and> flt (fsub (Fin r) (Fin f)) (fadd (Fin r) (Fin f)) \<longrightarrow>
        soft_circle_alpha (Fin d) (Fin r) (Fin f) = Inr (Fin 0))
     \<and> (Fin d = fadd (Fin r) (Fin f) \<and> f = 0 \<longrightarrow>
        soft_circle_alpha (Fin d) (Fin r) (Fin f) = Inr (Fin 1))
     \<and> (d \<le> d' \<longrightarrow>
        (\<exists>c c'. soft_circle_alpha (Fin d) (Fin r) (Fin f) = Inr (Fin c)
           \<and> soft_circle_alpha (Fin d') (Fin r) (Fin f) = Inr (Fin c')
           \<and> 0 \<le> c' \<and> c' \<le> c \<and> c \<le> 1))"
proof -
  define L where "L = rnd (r - f)"
  define H where "H = rnd (r + f)"
  define T where "T = rnd (2 * f)"
  note v = soft_circle_alpha_values [OF assms, folded L_def H_def T_def]
  have 1: "fle (Fin d) (fsub (Fin r) (Fin f)) \<longrightarrow>
        soft_circle_alpha (Fin d) (Fin r) (Fin f) = Inr (Fin 1)"
    unfolding v(1) v(6) by simp
  have 2: "flt (fsub (Fin r) (Fin f)) (Fin d) \<and> fle (Fin d) (fadd (Fin r) (Fin f)) \<longrightarrow>
        fmul (Fin 2) (Fin f) \<noteq> Fin 0
        \<and> soft_circle_alpha (Fin d) (Fin r) (Fin f) =
            Inr (clamp01 (fquot (fsub (fadd (Fin r) (Fin f)) (Fin d)) (fmul (Fin 2) (Fin f))))"
  proof
    assume "flt (fsub (Fin r) (Fin f)) (Fin d) \<and> fle (Fin d) (fadd (Fin r) (Fin f))"
    then have a: "L < d" "d \<le> H" unfolding v(1) v(2) by simp_all
    then have "0 < T" using v(5) by linarith
    then have T: "fmul (Fin 2) (Fin f) \<noteq> Fin 0" unfolding v(3) by simp
    have "soft_circle_alpha (Fin d) (Fin r) (Fin f) =
            Inr (clamp01 (fquot (fsub (fadd (Fin r) (Fin f)) (Fin d)) (fmul (Fin 2) (Fin f))))"
      unfolding soft_circle_alpha_def fdiv_def using a T
      by (simp only: v(1) v(2) fle.simps if_False bind_err_Inr) simp
    with T show "fmul (Fin 2) (Fin f) \<noteq> Fin 0
        \<and> soft_circle_alpha (Fin d) (Fin r) (Fin f) =
            Inr (clamp01 (fquot (fsub (fadd (Fin r) (Fin f)) (Fin d)) (fmul (Fin 2) (Fin f))))"
      by (rule conjI)
  qed
  have 3: "flt (fadd (Fin r) (Fin f)) (Fin d) \<longrightarrow>
        soft_circle_alpha (Fin d) (Fin r) (Fin f) = Inr (Fin 0)"
    unfolding v(2) v(6) using v(4) by simp
  have 4: "Fin d = fadd (Fin r) (Fin f) \<and> flt (fsub (Fin r) (Fin f)) (fadd (Fin r) (Fin f)) \<longrightarrow>
        soft_circle_alpha (Fin d) (Fin r) (Fin f) = Inr (Fin 0)"
    unfolding v(1) v(2) v(6) by auto
  have 5: "Fin d = fadd (Fin r) (Fin f) \<and> f = 0 \<longrightarrow>
        soft_circle_alpha (Fin d) (Fin r) (Fin f) = Inr (Fin 1)"
    unfolding v(2) v(6) by (auto simp: L_def H_def)
  have 6: "d \<le> d' \<longrightarrow>
        (\<exists>c c'. soft_circle_alpha (Fin d) (Fin r) (Fin f) = Inr (Fin c)
           \<and> soft_circle_alpha (Fin d') (Fin r) (Fin f) = Inr (Fin c')
           \<and> 0 \<le> c' \<and> c' \<le> c \<and> c \<le> 1)"
  proof
    assume "d \<le> d'"
    with assms obtain c c' where c: "soft_circle_alpha (Fin d) (Fin r) (Fin f) = Inr (Fin c)"
      "soft_circle_alpha (Fin d') (Fin r) (Fin f) = Inr (Fin c')" "c' \<le> c"
      using soft_circle_alpha_mono by blast
    from soft_circle_alpha_range [OF assms, of d] c(1) have "c \<le> 1" by auto
    moreover from soft_circle_alpha_range [OF assms, of d'] c(2) have "0 \<le> c'" by auto
    ultimately show "\<exists>c c'. soft_circle_alpha (Fin d) (Fin r) (Fin f) = Inr (Fin c)
           \<and> soft_circle_alpha (Fin d') (Fin r) (Fin f) = Inr (Fin c')
           \<and> 0 \<le> c' \<and> c' \<le> c \<and> c \<le> 1"
      using c by blast
  qed
  show ?thesis by (intro conjI) (rule 1, rule 2, rule 3, rule 4, rule 5, rule 6)
qed

theorem soft_circle_coverage_witness:
  "is_float (Fin 2) \<and> is_float (Fin 0)
   \<and> fle (Fin 1) (fsub (Fin 4) (Fin 2))
   \<and> soft_circle_alpha (Fin 1) (Fin 4) (Fin 2) = Inr (Fin 1)
   \<and> flt (fsub (Fin 4) (Fin 2)) (Fin 3) \<and> fle (Fin 3) (fadd (Fin 4) (Fin 2))
   \<and> soft_circle_alpha (Fin 3) (Fin 4) (Fin 2) = Inr (Fin (3 / 4))
   \<and> flt (fadd (Fin 4) (Fin 2)) (Fin 7)
   \<and> soft_circle_alpha (Fin 7) (Fin 4) (Fin 2) = Inr (Fin 0)
   \<and> Fin 6 = fadd (Fin 4) (Fin 2)
   \<and> soft_circle_alpha (Fin 6) (Fin 4) (Fin 2) = Inr (Fin 0)
   \<and> Fin 4 = fadd (Fin 4) (Fin 0)
   \<and> soft_circle_alpha (Fin 4) (Fin 4) (Fin 0) = Inr (Fin 1)
   \<and> (\<exists>c c'. soft_circle_alpha (Fin 3) (Fin 4) (Fin 2) = Inr (Fin c)
           \<and> soft_circle_alpha (Fin 5) (Fin 4) (Fin 2) = Inr (Fin c')
           \<and> 0 \<le> c' \<and> c' \<le> c \<and> c \<le> 1)"
proof -
  have q: "fl (3 / 4) = Fin (3 / 4)" using fl_dyadic [of 3 2] by simp
  have h: "\<bar>4::rat\<bar> \<le> 2 ^ 1000" "\<bar>2::rat\<bar> \<le> 2 ^ 1000" "(0::rat) \<le> 2" "is_float (Fin 2)"
    "\<bar>0::rat\<bar> \<le> 2 ^ 1000" "(0::rat) \<le> 0" "is_float (Fin 0)"
    by (simp_all add: is_float_def)
  note a = soft_circle_coverage [OF h(1) h(2) h(3) h(4)]
  note b = soft_circle_coverage [OF h(1) h(5) h(6) h(7)]
  have 0: "fle (Fin 1) (fsub (Fin 4) (Fin 2))" "flt (fsub (Fin 4) (Fin 2)) (Fin 3)"
    "fle (Fin 3) (fadd (Fin 4) (Fin 2))" "flt (fadd (Fin 4) (Fin 2)) (Fin 7)"
    "Fin 6 = fadd (Fin 4) (Fin 2)" "Fin 4 = fadd (Fin 4) (Fin 0)"
    by (simp_all add: fsub_def)
  have 1: "soft_circle_alpha (Fin 1) (Fin 4) (Fin 2) = Inr (Fin 1)"
    using a [of 1, THEN conjunct1] by (simp add: fsub_def)
  have 2: "soft_circle_alpha (Fin 3) (Fin 4) (Fin 2) = Inr (Fin (3 / 4))"
    using a [of 3, THEN conjunct2, THEN conjunct1]
    by (simp add: fsub_def q clamp01_def fmin_def fmax_def)
  have 3: "soft_circle_alpha (Fin 7) (Fin 4) (Fin 2) = Inr (Fin 0)"
    using a [of 7, THEN conjunct2, THEN conjunct2, THEN conjunct1] by simp
  have 4: "soft_circle_alpha (Fin 6) (Fin 4) (Fin 2) = Inr (Fin 0)"
    using a [of 6, THEN conjunct2, THEN conjunct2, THEN conjunct2, THEN conjunct1]
    by (simp add: fsub_def)
  have 5: "soft_circle_alpha (Fin 4) (Fin 4) (Fin 0) = Inr (Fin 1)"
    using b [of 4, THEN conjunct2, THEN conjunct2, THEN conjunct2, THEN conjunct2, THEN conjunct1]
    by simp
  have 6: "\<exists>c c'. soft_circle_alpha (Fin 3) (Fin 4) (Fin 2) = Inr (Fin c)
           \<and> soft_circle_alpha (Fin 5) (Fin 4) (Fin 2) = Inr (Fin c')
           \<and> 0 \<le> c' \<and> c' \<le> c \<and> c \<le> 1"
    using a [of 3 5, THEN conjunct2, THEN conjunct2, THEN conjunct2, THEN conjunct2, THEN conjunct2]
    by simp
  show ?thesis
    by (intro conjI)
      (rule h(4), rule h(7), rule 0(1), rule 1, rule 0(2), rule 0(3), rule 2, rule 0(4), rule 3,
        rule 0(5), rule 4, rule 0(6), rule 5, rule 6)
qed

section \<open>Coverage of the ring\<close>









end
